theory Spec2Isabelle
  imports Main "HOL-Library.Word"
begin

unbundle bit_operations_syntax

chapter \<open>Embecosm GDB server: RSP utilities and the core manager\<close>

text \<open>
  A shallow embedding of \<^verbatim>\<open>src/server/RspPacket.h\<close> (the \<^verbatim>\<open>Utils\<close> functions:
  \<^verbatim>\<open>char2Hex\<close>, \<^verbatim>\<open>hex2Char\<close>, \<^verbatim>\<open>regVal2Hex\<close>, \<^verbatim>\<open>hex2RegVal\<close>, \<^verbatim>\<open>hex2Val\<close>,
  \<^verbatim>\<open>rspUnescape\<close>) and of \<^verbatim>\<open>src/server/GdbServer.h\<close> (the packet size constants and
  \<^verbatim>\<open>CoreManager\<close> with its nested \<^verbatim>\<open>CoreState\<close>).
\<close>

section \<open>Data model\<close>

subsection \<open>Bytes and buffers\<close>

text \<open>
  A C \<^verbatim>\<open>char\<close> is a byte. A \<^verbatim>\<open>char *buf\<close> is the memory reachable from the pointer:
  \<open>buf i\<close> is \<^verbatim>\<open>buf[i]\<close>, and \<^verbatim>\<open>buf[i] = v\<close> is \<open>buf(i := v)\<close>. C does not check an index
  against any length, so neither does the model: the bytes beyond a stated length are
  whatever the memory holds there. Offsets of type \<^verbatim>\<open>std::size_t\<close> are natural numbers;
  they never exceed the stated length by more than one, so they cannot wrap for any buffer
  that fits in memory.
\<close>

type_synonym byte = "8 word"
type_synonym buffer = "nat \<Rightarrow> byte"

text \<open>Placing a byte sequence at the start of a memory, and reading a prefix back.\<close>

definition load :: "byte list \<Rightarrow> buffer \<Rightarrow> buffer" where
  "load xs mem = (\<lambda>i. if i < length xs then xs ! i else mem i)"

definition dump :: "buffer \<Rightarrow> nat \<Rightarrow> byte list" where
  "dump buf n = map buf [0..<n]"

text \<open>A memory holding NUL bytes only.\<close>

definition zeroed :: buffer where
  "zeroed = (\<lambda>i. 0)"

section \<open>Hex and value utilities\<close>

text \<open>
  A \<^verbatim>\<open>char\<close> read from a buffer is promoted to \<^verbatim>\<open>int\<close> when it is passed to
  \<^verbatim>\<open>char2Hex(int c)\<close>. Whether plain \<^verbatim>\<open>char\<close> is signed depends on the platform; the
  model takes the signed reading. For \<^verbatim>\<open>char2Hex\<close> the choice makes no difference
  (lemma \<open>char2Hex_signedness\<close> below).
\<close>

definition char_as_int :: "byte \<Rightarrow> int" where
  "char_as_int b = sint b"

text \<open>
  \<^verbatim>\<open>char2Hex\<close> computes on \<^verbatim>\<open>int\<close> and converts the result to its return type
  \<^verbatim>\<open>uint8_t\<close>; its last alternative is the literal \<^verbatim>\<open>-1\<close>.
\<close>

definition char2Hex :: "int \<Rightarrow> byte" where
  "char2Hex c =
     (if of_char CHR ''a'' \<le> c \<and> c \<le> of_char CHR ''f''
        then word_of_int (c - of_char CHR ''a'' + 10)
      else if of_char CHR ''0'' \<le> c \<and> c \<le> of_char CHR ''9''
        then word_of_int (c - of_char CHR ''0'')
      else if of_char CHR ''A'' \<le> c \<and> c \<le> of_char CHR ''F''
        then word_of_int (c - of_char CHR ''A'' + 10)
      else word_of_int (- 1))"

text \<open>
  The lookup table of \<^verbatim>\<open>hex2Char\<close>: the sixteen digits, fifteen rows of sixteen NUL
  bytes, and the terminating NUL of the string literal.
\<close>

definition hex2Char_map :: "byte list" where
  "hex2Char_map = map of_char ''0123456789abcdef'' @ replicate (15 * 16) 0 @ [0]"

definition hex2Char :: "byte \<Rightarrow> byte" where
  "hex2Char d = hex2Char_map ! unat d"

text \<open>
  The body shared by both loops of \<^verbatim>\<open>regVal2Hex\<close>: the low byte of \<^verbatim>\<open>val\<close> goes to
  \<^verbatim>\<open>buf[n * 2]\<close> and \<^verbatim>\<open>buf[n * 2 + 1]\<close> as two hex digits. Each loop then divides
  \<^verbatim>\<open>val\<close> by 256.
\<close>

definition put_hex_byte :: "64 word \<Rightarrow> buffer \<Rightarrow> nat \<Rightarrow> buffer" where
  "put_hex_byte val buf n =
     (let byte = (ucast (val AND 0xff) :: byte);
          buf = buf(n * 2 := hex2Char (drop_bit 4 byte AND 0xf));
          buf = buf(n * 2 + 1 := hex2Char (byte AND 0xf))
      in buf)"

text \<open>\<^verbatim>\<open>for (n = 0; n < numBytes; n++)\<close>, the little-endian loop.\<close>

function regVal2Hex_up :: "64 word \<Rightarrow> buffer \<Rightarrow> nat \<Rightarrow> nat \<Rightarrow> buffer" where
  "regVal2Hex_up val buf numBytes n =
     (if n < numBytes
      then regVal2Hex_up (val div 256) (put_hex_byte val buf n) numBytes (n + 1)
      else buf)"
  by pat_completeness auto
termination
  by (relation "measure (\<lambda>(val, buf, numBytes, n). numBytes - n)") auto

declare regVal2Hex_up.simps [simp del]

text \<open>
  \<^verbatim>\<open>for (n = numBytes; n-- > 0;)\<close>, the big-endian loop: the body runs with the
  decremented \<^verbatim>\<open>n\<close>.
\<close>

fun regVal2Hex_down :: "64 word \<Rightarrow> buffer \<Rightarrow> nat \<Rightarrow> buffer" where
  "regVal2Hex_down val buf 0 = buf"
| "regVal2Hex_down val buf (Suc n) = regVal2Hex_down (val div 256) (put_hex_byte val buf n) n"

definition regVal2Hex :: "64 word \<Rightarrow> buffer \<Rightarrow> nat \<Rightarrow> bool \<Rightarrow> buffer" where
  "regVal2Hex val buf numBytes isLittleEndianP =
     (let buf = (if isLittleEndianP then regVal2Hex_up val buf numBytes 0
                 else regVal2Hex_down val buf numBytes)
      in buf(numBytes * 2 := 0))"

text \<open>
  The body shared by both loops of \<^verbatim>\<open>hex2RegVal\<close>: two digits are shifted into
  \<^verbatim>\<open>val\<close>, each as \<^verbatim>\<open>val = (val << 4) | char2Hex(...)\<close>.
\<close>

definition get_hex_byte :: "64 word \<Rightarrow> buffer \<Rightarrow> nat \<Rightarrow> 64 word" where
  "get_hex_byte val buf n =
     (let val = push_bit 4 val OR ucast (char2Hex (char_as_int (buf (n * 2))));
          val = push_bit 4 val OR ucast (char2Hex (char_as_int (buf (n * 2 + 1))))
      in val)"

fun hex2RegVal_down :: "buffer \<Rightarrow> 64 word \<Rightarrow> nat \<Rightarrow> 64 word" where
  "hex2RegVal_down buf val 0 = val"
| "hex2RegVal_down buf val (Suc n) = hex2RegVal_down buf (get_hex_byte val buf n) n"

function hex2RegVal_up :: "buffer \<Rightarrow> 64 word \<Rightarrow> nat \<Rightarrow> nat \<Rightarrow> 64 word" where
  "hex2RegVal_up buf val numBytes n =
     (if n < numBytes then hex2RegVal_up buf (get_hex_byte val buf n) numBytes (n + 1)
      else val)"
  by pat_completeness auto
termination
  by (relation "measure (\<lambda>(buf, val, numBytes, n). numBytes - n)") auto

declare hex2RegVal_up.simps [simp del]

definition hex2RegVal :: "buffer \<Rightarrow> nat \<Rightarrow> bool \<Rightarrow> 64 word" where
  "hex2RegVal buf numBytes isLittleEndianP =
     (if isLittleEndianP then hex2RegVal_down buf 0 numBytes
      else hex2RegVal_up buf 0 numBytes 0)"

function hex2Val_loop :: "buffer \<Rightarrow> nat \<Rightarrow> 64 word \<Rightarrow> nat \<Rightarrow> 64 word" where
  "hex2Val_loop buf len val i =
     (if i < len
      then hex2Val_loop buf len (push_bit 4 val OR ucast (char2Hex (char_as_int (buf i)))) (i + 1)
      else val)"
  by pat_completeness auto
termination
  by (relation "measure (\<lambda>(buf, len, val, i). len - i)") auto

declare hex2Val_loop.simps [simp del]

definition hex2Val :: "buffer \<Rightarrow> nat \<Rightarrow> 64 word" where
  "hex2Val buf len = hex2Val_loop buf len 0 0"

text \<open>
  The characters \<^verbatim>\<open>char2Hex\<close> is meant for: the digits, and the letters a to f in
  either case.
\<close>

definition hex_digit :: "int \<Rightarrow> bool" where
  "hex_digit c \<longleftrightarrow> c \<in> of_char ` set ''0123456789abcdefABCDEF''"

text \<open>Notions for the proofs: the low byte of a value, and a buffer holding a byte as
  two hex digits at position \<open>n\<close>.\<close>

definition low_byte :: "64 word \<Rightarrow> byte" where
  "low_byte val = ucast (val AND 0xff)"

definition holds_pair :: "buffer \<Rightarrow> nat \<Rightarrow> byte \<Rightarrow> bool" where
  "holds_pair buf n b \<longleftrightarrow>
     buf (n * 2) = hex2Char (drop_bit 4 b AND 0xf) \<and> buf (n * 2 + 1) = hex2Char (b AND 0xf)"

section \<open>Escape decoding\<close>

text \<open>
  \<^verbatim>\<open>rspUnescape\<close> decodes in place, reading at \<^verbatim>\<open>fromOffset\<close> and writing at
  \<^verbatim>\<open>toOffset\<close>. The model runs the loop as the source has it and also records, in
  order, every index the loop body reads or writes, so that properties of the indices it
  touches can be stated. The comparison \<^verbatim>\<open>'}' == buf[fromOffset]\<close> reads the byte once;
  the branch taken reads one more byte (the next one when escaped, the same one
  otherwise) and writes one.
\<close>

datatype access = Read nat | Write nat

fun index_of :: "access \<Rightarrow> nat" where
  "index_of (Read i) = i"
| "index_of (Write i) = i"

function rspUnescape_loop ::
  "buffer \<Rightarrow> nat \<Rightarrow> nat \<Rightarrow> nat \<Rightarrow> access list \<Rightarrow> buffer \<times> nat \<times> access list" where
  "rspUnescape_loop buf len fromOffset toOffset acc =
     (if fromOffset < len then
        (if of_char CHR ''}'' = buf fromOffset
         then rspUnescape_loop (buf(toOffset := buf (fromOffset + 1) XOR 0x20)) len
                (fromOffset + 1 + 1) (toOffset + 1)
                (acc @ [Read fromOffset, Read (fromOffset + 1), Write toOffset])
         else rspUnescape_loop (buf(toOffset := buf fromOffset)) len
                (fromOffset + 1) (toOffset + 1)
                (acc @ [Read fromOffset, Read fromOffset, Write toOffset]))
      else (buf, toOffset, acc))"
  by pat_completeness auto
termination
  by (relation "measure (\<lambda>(buf, len, fromOffset, toOffset, acc). len - fromOffset)") auto

declare rspUnescape_loop.simps [simp del]

text \<open>The function returns \<^verbatim>\<open>toOffset\<close>; the buffer is its in-place result.\<close>

definition rspUnescape :: "buffer \<Rightarrow> nat \<Rightarrow> buffer \<times> nat" where
  "rspUnescape buf len = (case rspUnescape_loop buf len 0 0 [] of (buf', n, acc) \<Rightarrow> (buf', n))"

definition rspUnescape_accesses :: "buffer \<Rightarrow> nat \<Rightarrow> access list" where
  "rspUnescape_accesses buf len =
     (case rspUnescape_loop buf len 0 0 [] of (buf', n, acc) \<Rightarrow> acc)"

subsection \<open>What the loop computes, on byte sequences\<close>

text \<open>
  The decoded bytes and the indices touched, as functions of the bytes from
  \<^verbatim>\<open>fromOffset\<close> up to the stated length. \<open>past\<close> is the byte that lies at index
  \<^verbatim>\<open>len\<close>, just beyond them. The loop is proved to compute exactly these
  (lemma \<open>rspUnescape_loop_refines\<close>).
\<close>

fun unescape_bytes :: "byte \<Rightarrow> byte list \<Rightarrow> byte list" where
  "unescape_bytes past [] = []"
| "unescape_bytes past [x] = (if x = 0x7D then [past XOR 0x20] else [x])"
| "unescape_bytes past (x # y # ys) =
     (if x = 0x7D then (y XOR 0x20) # unescape_bytes past ys
      else x # unescape_bytes past (y # ys))"

fun unescape_trace :: "nat \<Rightarrow> nat \<Rightarrow> byte list \<Rightarrow> access list" where
  "unescape_trace f t [] = []"
| "unescape_trace f t [x] =
     (if x = 0x7D then [Read f, Read (f + 1), Write t] else [Read f, Read f, Write t])"
| "unescape_trace f t (x # y # ys) =
     (if x = 0x7D then [Read f, Read (f + 1), Write t] @ unescape_trace (f + 2) (t + 1) ys
      else [Read f, Read f, Write t] @ unescape_trace (f + 1) (t + 1) (y # ys))"

text \<open>A memory with the bytes \<open>d\<close> written from index \<open>t\<close> on.\<close>

definition overlay :: "buffer \<Rightarrow> nat \<Rightarrow> byte list \<Rightarrow> buffer" where
  "overlay buf t d = (\<lambda>i. if t \<le> i \<and> i < t + length d then d ! (i - t) else buf i)"

subsection \<open>The escape convention\<close>

text \<open>
  A sequence ends in a dangling escape when its final byte is a \<^verbatim>\<open>}\<close> that starts an
  escape, that is, one that is not itself the byte escaped by a \<^verbatim>\<open>}\<close> before it.
\<close>

fun dangling :: "byte list \<Rightarrow> bool" where
  "dangling [] = False"
| "dangling [x] = (x = 0x7D)"
| "dangling (x # y # ys) = (if x = 0x7D then dangling ys else dangling (y # ys))"

text \<open>The number of \<^verbatim>\<open>}\<close> escape prefixes in a sequence.\<close>

fun escapes :: "byte list \<Rightarrow> nat" where
  "escapes [] = 0"
| "escapes [x] = (if x = 0x7D then 1 else 0)"
| "escapes (x # y # ys) = (if x = 0x7D then 1 + escapes ys else escapes (y # ys))"

text \<open>
  Decoding as stated: a byte prefixed by \<^verbatim>\<open>}\<close> is replaced by that byte XOR 0x20, every
  other byte is copied; the prefixes themselves are dropped.
\<close>

fun unescape :: "byte list \<Rightarrow> byte list" where
  "unescape [] = []"
| "unescape [x] = (if x = 0x7D then [] else [x])"
| "unescape (x # y # ys) =
     (if x = 0x7D then (y XOR 0x20) # unescape ys else x # unescape (y # ys))"

text \<open>
  Modelled from the spec: the escaping applied when a packet is sent. It is done by the
  connection class (\<^verbatim>\<open>RspConnection\<close>), which is not among the sources. The spec: the
  payload is emitted with escaping for \<^verbatim>\<open>#\<close>, \<^verbatim>\<open>$\<close>, \<^verbatim>\<open>}\<close> and \<^verbatim>\<open>*\<close>, each sent as
  \<^verbatim>\<open>}\<close> followed by the byte XOR 0x20; all other bytes are sent unchanged.
\<close>

fun rspEscape :: "byte list \<Rightarrow> byte list" where
  "rspEscape [] = []"
| "rspEscape (b # bs) =
     (if b \<in> {of_char CHR ''#'', of_char CHR ''$'', of_char CHR ''}'', of_char CHR ''*''}
      then of_char CHR ''}'' # (b XOR 0x20) # rspEscape bs
      else b # rspEscape bs)"

section \<open>The core manager\<close>


subsection \<open>Target results and resume types\<close>

text \<open>
  Modelled from the spec: the enumeration \<^verbatim>\<open>ITarget::ResumeRes\<close> is declared in
  \<^verbatim>\<open>embdebug/ITarget.h\<close>, which is not among the sources. The spec lists its values as
  NONE (running, not done), INTERRUPTED, STEPPED, BREAKPOINT, TIMEOUT, SYSCALL, EXITED and
  FAILED.
\<close>

datatype ResumeRes =
  RES_NONE | RES_INTERRUPTED | RES_STEPPED | RES_BREAKPOINT
  | RES_TIMEOUT | RES_SYSCALL | RES_EXITED | RES_FAILED

text \<open>
  Modelled from the spec: the enumeration \<^verbatim>\<open>ITarget::ResumeType\<close> is declared in
  \<^verbatim>\<open>embdebug/ITarget.h\<close>, which is not among the sources. The spec gives the last resume
  action of a core as one of None, Step and Continue.
\<close>

datatype ResumeType = TYPE_NONE | TYPE_STEP | TYPE_CONTINUE

subsection \<open>The state of one core\<close>

record CoreState =
  mStopReason :: ResumeRes
  mResumeType :: ResumeType
  mStopReported :: bool
  mIsLive :: bool

text \<open>The constructor \<^verbatim>\<open>CoreState()\<close> with its member initialisers.\<close>

definition CoreState_new :: CoreState where
  "CoreState_new =
     \<lparr>mStopReason = RES_INTERRUPTED, mResumeType = TYPE_NONE,
      mStopReported = True, mIsLive = True\<rparr>"

definition killCore :: "CoreState \<Rightarrow> CoreState" where
  "killCore s = s\<lparr>mIsLive := False\<rparr>"

definition isLive :: "CoreState \<Rightarrow> bool" where
  "isLive s = mIsLive s"

definition stopReason :: "CoreState \<Rightarrow> ResumeRes" where
  "stopReason s = mStopReason s"

definition isRunning :: "CoreState \<Rightarrow> bool" where
  "isRunning s = (mResumeType s \<noteq> TYPE_NONE)"

definition hasUnreportedStop :: "CoreState \<Rightarrow> bool" where
  "hasUnreportedStop s = (\<not> mStopReported s)"

definition reportStopReason :: "CoreState \<Rightarrow> CoreState" where
  "reportStopReason s = s\<lparr>mStopReported := True\<rparr>"

definition setStopReason :: "CoreState \<Rightarrow> ResumeRes \<Rightarrow> CoreState" where
  "setStopReason s res = s\<lparr>mStopReason := res, mStopReported := (res = RES_NONE)\<rparr>"

definition setResumeType :: "CoreState \<Rightarrow> ResumeType \<Rightarrow> CoreState" where
  "setResumeType s ty = s\<lparr>mResumeType := ty\<rparr>"

text \<open>
  The members of \<^verbatim>\<open>CoreState\<close> are private, so a core state only ever is what the
  constructor built, changed by the public member functions.
\<close>

inductive CoreState_reachable :: "CoreState \<Rightarrow> bool" where
  fresh: "CoreState_reachable CoreState_new"
| killed: "CoreState_reachable s \<Longrightarrow> CoreState_reachable (killCore s)"
| reported: "CoreState_reachable s \<Longrightarrow> CoreState_reachable (reportStopReason s)"
| stopped: "CoreState_reachable s \<Longrightarrow> CoreState_reachable (setStopReason s res)"
| resumed: "CoreState_reachable s \<Longrightarrow> CoreState_reachable (setResumeType s ty)"

subsection \<open>The core manager\<close>

record CoreManager =
  mNumCores :: nat
  mLiveCores :: nat
  mCoreStates :: "CoreState list"

text \<open>
  \<^verbatim>\<open>operator[]\<close> asserts \<^verbatim>\<open>idx < mNumCores\<close> and then indexes the vector. A failed
  assertion aborts the program (the model is of a build with assertions enabled). Indexing a \<^verbatim>\<open>std::vector\<close> beyond its size is undefined
  in C++; the model keeps that case apart from both the abort and the normal return.
\<close>

datatype failure = AssertionFailed | VectorOutOfRange

definition index_op :: "CoreManager \<Rightarrow> nat \<Rightarrow> failure + CoreState" where
  "index_op cm idx =
     (if \<not> idx < mNumCores cm then Inl AssertionFailed
      else if idx < length (mCoreStates cm) then Inr (mCoreStates cm ! idx)
      else Inl VectorOutOfRange)"

definition getCpuCount :: "CoreManager \<Rightarrow> nat" where
  "getCpuCount cm = mNumCores cm"

text \<open>
  \<^verbatim>\<open>pid2CoreNum\<close> and \<^verbatim>\<open>coreNum2Pid\<close> compute on \<^verbatim>\<open>unsigned int\<close>: 32 bits,
  wrapping around.
\<close>

definition pid2CoreNum :: "32 word \<Rightarrow> 32 word" where
  "pid2CoreNum pid = pid - 1"

definition coreNum2Pid :: "32 word \<Rightarrow> 32 word" where
  "coreNum2Pid coreNum = coreNum + 1"

subsection \<open>Packet size constants\<close>

text \<open>
  \<^verbatim>\<open>RISCV_NUM_REG_BYTES\<close> multiplies by \<^verbatim>\<open>sizeof(uint_reg_t)\<close>; the type
  \<^verbatim>\<open>uint_reg_t\<close> is declared in \<^verbatim>\<open>embdebug/RegisterSizes.h\<close>, which is not among the
  sources, so the size is a parameter of the constants that depend on it.
\<close>

definition RISCV_NUM_REGS :: int where
  "RISCV_NUM_REGS = 33"

definition RISCV_NUM_REG_BYTES :: "nat \<Rightarrow> int" where
  "RISCV_NUM_REG_BYTES sizeof_reg = RISCV_NUM_REGS * int sizeof_reg"

definition RSP_PKT_SIZE :: "nat \<Rightarrow> int" where
  "RSP_PKT_SIZE sizeof_reg =
     (if RISCV_NUM_REG_BYTES sizeof_reg * 2 + 1 < 256 then 256
      else RISCV_NUM_REG_BYTES sizeof_reg * 2 + 1)"

text \<open>
  Modelled from the spec: the size of \<^verbatim>\<open>uint_reg_t\<close>, whose declaration is missing. The
  spec fixes registers at 4 bytes, and the comment on \<^verbatim>\<open>RISCV_NUM_REG_BYTES\<close> says
  "4 bytes for each".
\<close>

definition sizeof_uint_reg_t :: nat where
  "sizeof_uint_reg_t = 4"

section \<open>Properties of the hex and value utilities\<close>

subsection \<open>Single digits\<close>

lemma nibble_cases:
  fixes d :: byte
  assumes "d AND 0xf = d"
  shows "d \<in> of_nat ` {0..<16}"
proof -
  have "unat d < 16"
  proof -
    have "unat (d AND 0xf) \<le> unat (0xf :: byte)"
      by (rule word_and_le1 [THEN word_le_nat_alt [THEN iffD1]])
    with assms show ?thesis by simp
  qed
  then have "unat d \<in> {0..<16}" by simp
  then have "of_nat (unat d) \<in> (of_nat ` {0..<16} :: byte set)" by (rule imageI)
  then show ?thesis by simp
qed

lemma digit_roundtrip_nat:
  "n < 16 \<Longrightarrow> char2Hex (char_as_int (hex2Char (of_nat n))) = of_nat n"
proof -
  assume "n < 16"
  then have "n \<in> {0,1,2,3,4,5,6,7,8,9,10,11,12,13,14,15}" by simp arith
  then show ?thesis
    by (auto simp add: hex2Char_def hex2Char_map_def char2Hex_def char_as_int_def)
qed

lemma digit_roundtrip:
  fixes d :: byte
  shows "char2Hex (char_as_int (hex2Char (d AND 0xf))) = d AND 0xf"
proof -
  have "(d AND 0xf) AND 0xf = d AND 0xf" by (simp add: and.assoc)
  then have "d AND 0xf \<in> of_nat ` {0..<16}" by (rule nibble_cases)
  then obtain n where "n < 16" "d AND 0xf = of_nat n" by auto
  then show ?thesis using digit_roundtrip_nat by simp
qed

lemma low_nibble_mask: "(0xf :: 'a::len word) = mask 4"
  by (simp add: mask_eq_exp_minus_1)

lemma low_byte_mask: "(0xff :: 'a::len word) = mask 8"
  by (simp add: mask_eq_exp_minus_1)

lemma decode_pair:
  fixes acc :: "64 word" and b :: byte
  shows "push_bit 4 (push_bit 4 acc OR ucast (drop_bit 4 b AND 0xf)) OR ucast (b AND 0xf)
         = push_bit 8 acc OR ucast b"
  unfolding low_nibble_mask
  apply (rule bit_word_eqI)
  apply (auto simp add: bit_simps dest: bit_imp_le_length)
  done

lemma hex_digit_ranges:
  "hex_digit c \<longleftrightarrow>
     (of_char CHR ''0'' \<le> c \<and> c \<le> of_char CHR ''9'') \<or>
     (of_char CHR ''a'' \<le> c \<and> c \<le> of_char CHR ''f'') \<or>
     (of_char CHR ''A'' \<le> c \<and> c \<le> of_char CHR ''F'')"
  unfolding hex_digit_def by simp arith

lemma char2Hex_signedness:
  fixes b :: byte
  shows "char2Hex (sint b) = char2Hex (uint b)"
proof (cases "uint b < 128")
  case True
  then have below: "uint b < 2 ^ 7" by simp
  have "(- (2 ^ 7) :: int) \<le> 0" by simp
  also have "0 \<le> uint b" by simp
  finally have "signed_take_bit 7 (uint b) = uint b"
    using below by (rule signed_take_bit_int_eq_self)
  then have "sint b = uint b" by (simp add: sint_uint)
  then show ?thesis by simp
next
  case False
  then have big: "2 ^ 7 \<le> uint b" by simp
  have "sint b = signed_take_bit 7 (uint b)" by (simp add: sint_uint)
  also from big have "\<dots> \<le> uint b - 2 ^ Suc 7"
    by (rule signed_take_bit_int_less_eq)
  also have "\<dots> < 0" using uint_bounded [of b] by simp
  finally have "sint b < 0" .
  with False show ?thesis by (simp add: char2Hex_def)
qed

lemma char2Hex_invalid: "\<not> hex_digit c \<Longrightarrow> char2Hex c = 255"
  by (auto simp add: hex_digit_ranges char2Hex_def)

lemma uint_byte_of_int: "0 \<le> k \<Longrightarrow> k < 256 \<Longrightarrow> uint (word_of_int k :: byte) = k"
  by (simp add: uint_word_of_int_eq take_bit_int_eq_self)

subsection \<open>What the rendering loops leave in the buffer\<close>

lemma put_hex_byte_pair: "holds_pair (put_hex_byte val buf n) n (low_byte val)"
  by (simp add: put_hex_byte_def holds_pair_def low_byte_def Let_def)

lemma put_hex_byte_other: "i \<noteq> n * 2 \<Longrightarrow> i \<noteq> n * 2 + 1 \<Longrightarrow> put_hex_byte val buf n i = buf i"
  by (simp add: put_hex_byte_def Let_def)

lemma holds_pair_cong:
  "buf' (n * 2) = buf (n * 2) \<Longrightarrow> buf' (n * 2 + 1) = buf (n * 2 + 1) \<Longrightarrow>
   holds_pair buf' n b = holds_pair buf n b"
  by (simp add: holds_pair_def)

lemma get_hex_byte_pair:
  assumes "holds_pair buf n b"
  shows "get_hex_byte acc buf n = push_bit 8 acc OR ucast b"
proof -
  from assms have "get_hex_byte acc buf n
      = push_bit 4 (push_bit 4 acc OR ucast (drop_bit 4 b AND 0xf)) OR ucast (b AND 0xf)"
    by (simp only: get_hex_byte_def holds_pair_def Let_def digit_roundtrip)
  also have "\<dots> = push_bit 8 acc OR ucast b" by (rule decode_pair)
  finally show ?thesis .
qed

lemma div_256_drop_bit: "(val :: 64 word) div 256 = drop_bit 8 val"
  by (simp add: drop_bit_eq_div)

lemma drop_next_byte:
  fixes val :: "64 word"
  shows "drop_bit (8 * j) (val div 256) = drop_bit (8 * Suc j) val"
proof -
  have "8 * j + 8 = 8 * Suc j" by simp
  then show ?thesis by (simp only: div_256_drop_bit drop_bit_drop_bit)
qed

lemma regVal2Hex_up_below:
  "i < n * 2 \<Longrightarrow> regVal2Hex_up val buf numBytes n i = buf i"
proof (induction val buf numBytes n rule: regVal2Hex_up.induct)
  case (1 val buf numBytes n)
  show ?case
  proof (cases "n < numBytes")
    case True
    with 1 show ?thesis by (simp add: put_hex_byte_other regVal2Hex_up.simps [of val buf numBytes n])
  next
    case False
    then show ?thesis by (simp add: regVal2Hex_up.simps [of val buf numBytes n])
  qed
qed

lemma regVal2Hex_up_pairs:
  "n \<le> k \<Longrightarrow> k < numBytes \<Longrightarrow>
   holds_pair (regVal2Hex_up val buf numBytes n) k (low_byte (drop_bit (8 * (k - n)) val))"
proof (induction val buf numBytes n rule: regVal2Hex_up.induct)
  case (1 val buf numBytes n)
  from 1(2,3) have lt: "n < numBytes" by simp
  then have unfold: "regVal2Hex_up val buf numBytes n
      = regVal2Hex_up (val div 256) (put_hex_byte val buf n) numBytes (n + 1)"
    by (simp add: regVal2Hex_up.simps [of val buf numBytes n])
  show ?case
  proof (cases "k = n")
    case True
    have "holds_pair (regVal2Hex_up (val div 256) (put_hex_byte val buf n) numBytes (n + 1)) n
            (low_byte val)
          = holds_pair (put_hex_byte val buf n) n (low_byte val)"
      by (rule holds_pair_cong) (simp_all add: regVal2Hex_up_below)
    with True show ?thesis
      by (simp add: put_hex_byte_pair unfold)
  next
    case False
    with 1(2) have le: "n + 1 \<le> k" by simp
    then obtain j where j: "k - (n + 1) = j" "k - n = Suc j" by (simp add: Suc_diff_Suc)
    from 1(1) [OF lt le 1(3)]
    have "holds_pair (regVal2Hex_up (val div 256) (put_hex_byte val buf n) numBytes (n + 1)) k
            (low_byte (drop_bit (8 * (k - (n + 1))) (val div 256)))" .
    then show ?thesis
      by (simp only: unfold j drop_next_byte)
  qed
qed

lemma regVal2Hex_down_above:
  "n * 2 \<le> i \<Longrightarrow> regVal2Hex_down val buf n i = buf i"
  by (induction n arbitrary: val buf) (simp_all add: put_hex_byte_other)

lemma regVal2Hex_down_pairs:
  "k < n \<Longrightarrow>
   holds_pair (regVal2Hex_down val buf n) k (low_byte (drop_bit (8 * (n - 1 - k)) val))"
proof (induction n arbitrary: val buf)
  case 0
  then show ?case by simp
next
  case (Suc n)
  show ?case
  proof (cases "k = n")
    case True
    have "holds_pair (regVal2Hex_down (val div 256) (put_hex_byte val buf n) n) n (low_byte val)
          = holds_pair (put_hex_byte val buf n) n (low_byte val)"
      by (rule holds_pair_cong) (simp_all add: regVal2Hex_down_above)
    with True show ?thesis by (simp add: put_hex_byte_pair)
  next
    case False
    with Suc.prems have lt: "k < n" by simp
    then obtain j where j: "n - 1 - k = j" "Suc n - 1 - k = Suc j" by (simp add: Suc_diff_Suc)
    from Suc.IH [OF lt]
    have "holds_pair (regVal2Hex_down (val div 256) (put_hex_byte val buf n) n) k
            (low_byte (drop_bit (8 * (n - 1 - k)) (val div 256)))" .
    then show ?thesis
      by (simp only: regVal2Hex_down.simps j drop_next_byte)
  qed
qed

subsection \<open>What the parsing loops read back\<close>

lemma take_bit_next_byte:
  fixes v :: "64 word"
  shows "push_bit (8 * m) (ucast (low_byte (drop_bit (8 * m) v))) OR take_bit (8 * m) v
         = take_bit (8 * Suc m) v"
  unfolding low_byte_def low_byte_mask
  apply (rule bit_word_eqI)
  apply (auto simp add: bit_simps dest: bit_imp_le_length)
  done

lemma shift_in_byte:
  fixes acc v :: "64 word"
  shows "push_bit (8 * m) (push_bit 8 acc OR ucast (low_byte (drop_bit (8 * m) v)))
           OR take_bit (8 * m) v
         = push_bit (8 * Suc m) acc OR take_bit (8 * Suc m) v"
proof -
  have "8 * m + 8 = 8 * Suc m" by simp
  then have "push_bit (8 * m) (push_bit 8 acc) = push_bit (8 * Suc m) acc"
    by (simp only: push_bit_push_bit)
  then have "push_bit (8 * m) (push_bit 8 acc OR ucast (low_byte (drop_bit (8 * m) v)))
               OR take_bit (8 * m) v
             = push_bit (8 * Suc m) acc
               OR (push_bit (8 * m) (ucast (low_byte (drop_bit (8 * m) v))) OR take_bit (8 * m) v)"
    by (simp only: push_bit_or or.assoc)
  then show ?thesis by (simp only: take_bit_next_byte)
qed

lemma hex2RegVal_down_value:
  "(\<And>k. k < n \<Longrightarrow> holds_pair buf k (low_byte (drop_bit (8 * k) v))) \<Longrightarrow>
   hex2RegVal_down buf acc n = push_bit (8 * n) acc OR take_bit (8 * n) v"
proof (induction n arbitrary: acc)
  case 0
  show ?case by simp
next
  case (Suc n)
  have "holds_pair buf n (low_byte (drop_bit (8 * n) v))" by (rule Suc.prems) simp
  then have "hex2RegVal_down buf acc (Suc n)
             = hex2RegVal_down buf (push_bit 8 acc OR ucast (low_byte (drop_bit (8 * n) v))) n"
    by (simp add: get_hex_byte_pair)
  also have "\<dots> = push_bit (8 * n) (push_bit 8 acc OR ucast (low_byte (drop_bit (8 * n) v)))
                     OR take_bit (8 * n) v"
    by (rule Suc.IH) (simp add: Suc.prems)
  also have "\<dots> = push_bit (8 * Suc n) acc OR take_bit (8 * Suc n) v"
    by (rule shift_in_byte)
  finally show ?case .
qed

lemma hex2RegVal_up_value:
  "n \<le> numBytes \<Longrightarrow>
   (\<And>k. n \<le> k \<Longrightarrow> k < numBytes \<Longrightarrow>
      holds_pair buf k (low_byte (drop_bit (8 * (numBytes - 1 - k)) v))) \<Longrightarrow>
   hex2RegVal_up buf acc numBytes n
     = push_bit (8 * (numBytes - n)) acc OR take_bit (8 * (numBytes - n)) v"
proof (induction buf acc numBytes n rule: hex2RegVal_up.induct)
  case (1 buf acc numBytes n)
  show ?case
  proof (cases "n < numBytes")
    case False
    with 1(2) have "numBytes - n = 0" by simp
    with False show ?thesis by (simp add: hex2RegVal_up.simps [of buf acc numBytes n])
  next
    case True
    then obtain m where m: "numBytes - (n + 1) = m" "numBytes - n = Suc m" "numBytes - 1 - n = m"
      by (simp add: Suc_diff_Suc)
    have "holds_pair buf n (low_byte (drop_bit (8 * (numBytes - 1 - n)) v))"
      using True by (intro 1(3)) simp_all
    then have step: "get_hex_byte acc buf n = push_bit 8 acc OR ucast (low_byte (drop_bit (8 * m) v))"
      by (simp only: get_hex_byte_pair m)
    have "hex2RegVal_up buf acc numBytes n
          = hex2RegVal_up buf (get_hex_byte acc buf n) numBytes (n + 1)"
      using True by (simp add: hex2RegVal_up.simps [of buf acc numBytes n])
    also have "\<dots> = push_bit (8 * (numBytes - (n + 1))) (get_hex_byte acc buf n)
                       OR take_bit (8 * (numBytes - (n + 1))) v"
    proof (rule 1(1) [OF True])
      show "n + 1 \<le> numBytes" using True by simp
    next
      fix k assume "n + 1 \<le> k" and "k < numBytes"
      then show "holds_pair buf k (low_byte (drop_bit (8 * (numBytes - 1 - k)) v))"
        by (intro 1(3)) simp_all
    qed
    also have "\<dots> = push_bit (8 * Suc m) acc OR take_bit (8 * Suc m) v"
      by (simp only: m step shift_in_byte)
    finally show ?thesis by (simp only: m)
  qed
qed

lemma hex2RegVal_regVal2Hex:
  "hex2RegVal (regVal2Hex v buf w e) w e = take_bit (8 * w) v"
proof (cases e)
  case True
  have "holds_pair (regVal2Hex v buf w True) k (low_byte (drop_bit (8 * k) v))" if "k < w" for k
  proof -
    have "holds_pair (regVal2Hex v buf w True) k (low_byte (drop_bit (8 * k) v))
          = holds_pair (regVal2Hex_up v buf w 0) k (low_byte (drop_bit (8 * k) v))"
      using that by (intro holds_pair_cong) (simp_all add: regVal2Hex_def)
    with regVal2Hex_up_pairs [of 0 k w v buf] that show ?thesis by simp
  qed
  then have "hex2RegVal_down (regVal2Hex v buf w True) 0 w = push_bit (8 * w) 0 OR take_bit (8 * w) v"
    by (rule hex2RegVal_down_value)
  with True show ?thesis by (simp add: hex2RegVal_def)
next
  case False
  have "holds_pair (regVal2Hex v buf w False) k (low_byte (drop_bit (8 * (w - 1 - k)) v))"
    if "k < w" for k
  proof -
    have "holds_pair (regVal2Hex v buf w False) k (low_byte (drop_bit (8 * (w - 1 - k)) v))
          = holds_pair (regVal2Hex_down v buf w) k (low_byte (drop_bit (8 * (w - 1 - k)) v))"
      using that by (intro holds_pair_cong) (simp_all add: regVal2Hex_def)
    with regVal2Hex_down_pairs [of k w v buf] that show ?thesis by simp
  qed
  then have "hex2RegVal_up (regVal2Hex v buf w False) 0 w 0
             = push_bit (8 * (w - 0)) 0 OR take_bit (8 * (w - 0)) v"
    by (intro hex2RegVal_up_value) simp_all
  with False show ?thesis by (simp add: hex2RegVal_def)
qed

lemma hex2RegVal_regVal2Hex_unat:
  "unat (hex2RegVal (regVal2Hex v buf w e) w e) = unat v mod 2 ^ (8 * w)"
proof -
  have "unat (take_bit (8 * w) v) = take_bit (8 * w) (unat v)"
    by (rule unsigned_take_bit_eq)
  also have "\<dots> = unat v mod 2 ^ (8 * w)"
    by (rule take_bit_eq_mod)
  finally show ?thesis by (simp only: hex2RegVal_regVal2Hex)
qed

lemma roundtrip_iff:
  "hex2RegVal (regVal2Hex v buf w e) w e = v \<longleftrightarrow> unat v < 2 ^ (8 * w)"
proof -
  have "hex2RegVal (regVal2Hex v buf w e) w e = v
        \<longleftrightarrow> unat (hex2RegVal (regVal2Hex v buf w e) w e) = unat v"
    by (simp add: word_unat_eq_iff)
  also have "\<dots> \<longleftrightarrow> unat v < 2 ^ (8 * w)"
    by (simp add: hex2RegVal_regVal2Hex_unat mod_eq_self_iff_div_eq_0 div_eq_0_iff)
  finally show ?thesis .
qed

lemma hex2RegVal_up_done:
  "numBytes \<le> n \<Longrightarrow> hex2RegVal_up buf val numBytes n = val"
  by (subst hex2RegVal_up.simps) simp

lemma hex2Val_loop_done: "len \<le> i \<Longrightarrow> hex2Val_loop buf len val i = val"
  by (subst hex2Val_loop.simps) simp

lemma hex2Val_loop_snoc:
  "i \<le> len \<Longrightarrow>
   hex2Val_loop buf (Suc len) val i
     = push_bit 4 (hex2Val_loop buf len val i) OR ucast (char2Hex (char_as_int (buf len)))"
proof (induction buf len val i rule: hex2Val_loop.induct)
  case (1 buf len val i)
  show ?case
  proof (cases "i < len")
    case True
    then have "hex2Val_loop buf (Suc len) val i
               = hex2Val_loop buf (Suc len)
                   (push_bit 4 val OR ucast (char2Hex (char_as_int (buf i)))) (i + 1)"
      by (subst hex2Val_loop.simps) simp
    also have "\<dots> = push_bit 4 (hex2Val_loop buf len
                   (push_bit 4 val OR ucast (char2Hex (char_as_int (buf i)))) (i + 1))
                 OR ucast (char2Hex (char_as_int (buf len)))"
      using True by (intro 1(1)) simp_all
    also have "hex2Val_loop buf len
                   (push_bit 4 val OR ucast (char2Hex (char_as_int (buf i)))) (i + 1)
               = hex2Val_loop buf len val i"
      using True by (subst (2) hex2Val_loop.simps) simp
    finally show ?thesis .
  next
    case False
    with 1(2) have eq: "i = len" by simp
    have "hex2Val_loop buf (Suc len) val len
          = hex2Val_loop buf (Suc len)
              (push_bit 4 val OR ucast (char2Hex (char_as_int (buf len)))) (len + 1)"
      by (subst hex2Val_loop.simps) simp
    also have "\<dots> = push_bit 4 val OR ucast (char2Hex (char_as_int (buf len)))"
      by (rule hex2Val_loop_done) simp
    finally show ?thesis using eq by (simp add: hex2Val_loop_done)
  qed
qed

lemma hex2Val_snoc:
  "hex2Val buf (Suc len)
     = push_bit 4 (hex2Val buf len) OR ucast (char2Hex (char_as_int (buf len)))"
  by (simp add: hex2Val_def hex2Val_loop_snoc)

subsection \<open>The round trip through hex\<close>

text \<open>
  C1, as stated, fails: rendering with a byte width below 8 keeps only that many low
  bytes. The value \<open>0x100\<close> rendered little-endian with width 1 is \<^verbatim>\<open>00\<close>, which
  parses back to 0.
\<close>

theorem regVal2Hex_roundtrip_counterexample:
  "hex2RegVal (regVal2Hex 0x100 zeroed 1 True) 1 True \<noteq> 0x100"
  by code_simp

text \<open>
  C1, amended. For every 64-bit value \<open>v\<close>, either endianness and every byte width
  \<open>w\<close> (so for the widths 1, 2, 4 and 8), rendering \<open>v\<close> with \<^verbatim>\<open>regVal2Hex\<close> and
  parsing the result with \<^verbatim>\<open>hex2RegVal\<close> yields the low \<open>w\<close> bytes of \<open>v\<close>, that is
  \<open>v mod 2 ^ (8 * w)\<close>. It yields \<open>v\<close> again exactly when \<open>v < 2 ^ (8 * w)\<close>, which
  is every value for width 8.
\<close>

theorem hex2RegVal_regVal2Hex_low_bytes:
  "unat (hex2RegVal (regVal2Hex v buf w e) w e) = unat v mod 2 ^ (8 * w) \<and>
   (hex2RegVal (regVal2Hex v buf w e) w e = v \<longleftrightarrow> unat v < 2 ^ (8 * w)) \<and>
   hex2RegVal (regVal2Hex v buf 8 e) 8 e = v"
proof -
  have "unat v < 2 ^ (8 * 8)"
    using unsigned_less [of v] by simp
  then have "hex2RegVal (regVal2Hex v buf 8 e) 8 e = v"
    by (simp only: roundtrip_iff)
  then show ?thesis
    by (simp only: hex2RegVal_regVal2Hex_unat roundtrip_iff)
qed

subsection \<open>Characters that are not hex digits\<close>

text \<open>
  C10. \<^verbatim>\<open>char2Hex\<close> returns the digit's value, 0 to 15, for the characters 0 to 9, a to
  f and A to F. For every other character it returns 255, the literal -1 converted to
  \<^verbatim>\<open>uint8_t\<close>. So the callers get 255 for a bad digit and no error: \<^verbatim>\<open>hex2Val\<close>
  shifts its value by four bits and ORs 255 into it, and \<^verbatim>\<open>hex2RegVal\<close> on one byte
  of two bad digits returns \<open>0xFFF\<close>.
\<close>

theorem char2Hex_digits_and_invalid:
  "(of_char CHR ''0'' \<le> c \<and> c \<le> of_char CHR ''9'' \<longrightarrow>
      uint (char2Hex c) = c - of_char CHR ''0'') \<and>
   (of_char CHR ''a'' \<le> c \<and> c \<le> of_char CHR ''f'' \<longrightarrow>
      uint (char2Hex c) = c - of_char CHR ''a'' + 10) \<and>
   (of_char CHR ''A'' \<le> c \<and> c \<le> of_char CHR ''F'' \<longrightarrow>
      uint (char2Hex c) = c - of_char CHR ''A'' + 10) \<and>
   (hex_digit c \<longrightarrow> uint (char2Hex c) < 16) \<and>
   (\<not> hex_digit c \<longrightarrow> char2Hex c = 255) \<and>
   (\<not> hex_digit (char_as_int (buf len)) \<longrightarrow>
      hex2Val buf (Suc len) = push_bit 4 (hex2Val buf len) OR 255) \<and>
   (\<not> hex_digit (char_as_int (buf 0)) \<and> \<not> hex_digit (char_as_int (buf 1)) \<longrightarrow>
      hex2RegVal buf 1 e = 0xFFF)"
proof -
  have digit: "uint (char2Hex c) = c - of_char CHR ''0''"
    if range: "of_char CHR ''0'' \<le> c \<and> c \<le> of_char CHR ''9''"
  proof -
    from range have "char2Hex c = word_of_int (c - of_char CHR ''0'')"
      by (simp add: char2Hex_def)
    moreover have "uint (word_of_int (c - of_char CHR ''0'') :: byte) = c - of_char CHR ''0''"
      by (rule uint_byte_of_int) (use range in simp_all)
    ultimately show ?thesis by (simp only:)
  qed
  have lower: "uint (char2Hex c) = c - of_char CHR ''a'' + 10"
    if range: "of_char CHR ''a'' \<le> c \<and> c \<le> of_char CHR ''f''"
  proof -
    from range have "char2Hex c = word_of_int (c - of_char CHR ''a'' + 10)"
      by (simp add: char2Hex_def)
    moreover have "uint (word_of_int (c - of_char CHR ''a'' + 10) :: byte)
                   = c - of_char CHR ''a'' + 10"
      by (rule uint_byte_of_int) (use range in simp_all)
    ultimately show ?thesis by (simp only:)
  qed
  have upper: "uint (char2Hex c) = c - of_char CHR ''A'' + 10"
    if range: "of_char CHR ''A'' \<le> c \<and> c \<le> of_char CHR ''F''"
  proof -
    from range have "char2Hex c = word_of_int (c - of_char CHR ''A'' + 10)"
      by (simp add: char2Hex_def)
    moreover have "uint (word_of_int (c - of_char CHR ''A'' + 10) :: byte)
                   = c - of_char CHR ''A'' + 10"
      by (rule uint_byte_of_int) (use range in simp_all)
    ultimately show ?thesis by (simp only:)
  qed
  have small: "uint (char2Hex c) < 16" if "hex_digit c"
    using that digit lower upper unfolding hex_digit_ranges by auto
  have bad: "hex2Val buf (Suc len) = push_bit 4 (hex2Val buf len) OR 255"
    if "\<not> hex_digit (char_as_int (buf len))"
    using that by (simp add: hex2Val_snoc char2Hex_invalid)
  have bad2: "hex2RegVal buf 1 e = 0xFFF"
    if "\<not> hex_digit (char_as_int (buf 0)) \<and> \<not> hex_digit (char_as_int (buf 1))"
  proof -
    have "hex2RegVal_up buf 0 1 0 = hex2RegVal_up buf (get_hex_byte 0 buf 0) 1 (0 + 1)"
      by (subst hex2RegVal_up.simps) simp
    also have "\<dots> = get_hex_byte 0 buf 0"
      by (rule hex2RegVal_up_done) simp
    finally have "hex2RegVal buf 1 e = get_hex_byte 0 buf 0"
      by (simp add: hex2RegVal_def)
    also from that have "\<dots> = 0xFFF"
      by (simp add: get_hex_byte_def char2Hex_invalid Let_def)
    finally show ?thesis .
  qed
  from digit lower upper small bad bad2 char2Hex_invalid [of c] show ?thesis
    by blast
qed

theorem char2Hex_digits_and_invalid_witness:
  "uint (char2Hex (of_char CHR ''7'')) = 7 \<and>
   uint (char2Hex (of_char CHR ''c'')) = 12 \<and>
   uint (char2Hex (of_char CHR ''E'')) = 14 \<and>
   hex_digit (of_char CHR ''7'') \<and>
   \<not> hex_digit (of_char CHR ''g'') \<and> char2Hex (of_char CHR ''g'') = 255 \<and>
   \<not> hex_digit (char_as_int (load [0x7A, 0x7A] zeroed 0)) \<and>
   \<not> hex_digit (char_as_int (load [0x7A, 0x7A] zeroed 1)) \<and>
   hex2Val (load [0x7A, 0x7A] zeroed) (Suc 1)
     = push_bit 4 (hex2Val (load [0x7A, 0x7A] zeroed) 1) OR 255 \<and>
   hex2RegVal (load [0x7A, 0x7A] zeroed) 1 True = 0xFFF"
proof -
  have h7: "hex_digit (of_char CHR ''7'')" and hg: "\<not> hex_digit (of_char CHR ''g'')"
    by (simp_all add: hex_digit_def)
  have z0: "\<not> hex_digit (char_as_int (load [0x7A, 0x7A] zeroed 0))"
    and z1: "\<not> hex_digit (char_as_int (load [0x7A, 0x7A] zeroed 1))"
    by (simp_all add: hex_digit_def char_as_int_def load_def)
  from char2Hex_digits_and_invalid [of "of_char CHR ''7''" "load [0x7A, 0x7A] zeroed" 1 True]
       char2Hex_digits_and_invalid [of "of_char CHR ''c''" "load [0x7A, 0x7A] zeroed" 1 True]
       char2Hex_digits_and_invalid [of "of_char CHR ''E''" "load [0x7A, 0x7A] zeroed" 1 True]
       char2Hex_digits_and_invalid [of "of_char CHR ''g''" "load [0x7A, 0x7A] zeroed" 1 True]
       h7 hg z0 z1
  show ?thesis by simp
qed

section \<open>Properties of escape decoding\<close>

subsection \<open>The loop computes the decoding and the trace\<close>

lemma overlay_Nil: "overlay buf t [] = buf"
  by (rule ext) (auto simp add: overlay_def)

lemma overlay_single: "overlay buf t [x] = buf(t := x)"
  by (rule ext) (auto simp add: overlay_def)

lemma overlay_Cons: "overlay (buf(t := x)) (Suc t) d = overlay buf t (x # d)"
  by (rule ext) (auto simp add: overlay_def nth_Cons' Suc_diff_le)

lemma unescape_bytes_plain:
  "x \<noteq> 0x7D \<Longrightarrow> unescape_bytes past (x # xs) = x # unescape_bytes past xs"
  by (cases xs) simp_all

lemma unescape_trace_plain:
  "x \<noteq> 0x7D \<Longrightarrow>
   unescape_trace f t (x # xs) = [Read f, Read f, Write t] @ unescape_trace (f + 1) (t + 1) xs"
  by (cases xs) simp_all

lemma rspUnescape_loop_done:
  "len \<le> fromOffset \<Longrightarrow> rspUnescape_loop buf len fromOffset toOffset acc = (buf, toOffset, acc)"
  by (simp add: rspUnescape_loop.simps [of buf len fromOffset toOffset acc])

lemma rspUnescape_loop_refines:
  "toOffset \<le> fromOffset \<Longrightarrow> fromOffset \<le> len \<Longrightarrow>
   rspUnescape_loop buf len fromOffset toOffset acc =
     (overlay buf toOffset (unescape_bytes (buf len) (map buf [fromOffset..<len])),
      toOffset + length (unescape_bytes (buf len) (map buf [fromOffset..<len])),
      acc @ unescape_trace fromOffset toOffset (map buf [fromOffset..<len]))"
proof (induction buf len fromOffset toOffset acc rule: rspUnescape_loop.induct)
  case (1 buf len fromOffset toOffset acc)
  note unfold = rspUnescape_loop.simps [of buf len fromOffset toOffset acc]
  show ?case
  proof (cases "fromOffset < len")
    case False
    then have "rspUnescape_loop buf len fromOffset toOffset acc = (buf, toOffset, acc)"
      by (simp add: unfold)
    with False show ?thesis by (simp add: overlay_Nil)
  next
    case inside: True
    then have upt: "[fromOffset..<len] = fromOffset # [fromOffset + 1..<len]"
      by (simp add: upt_conv_Cons)
    show ?thesis
    proof (cases "buf fromOffset = 0x7D")
      case False
      let ?buf = "buf(toOffset := buf fromOffset)"
      from 1(3) inside have keep: "?buf len = buf len"
        "map ?buf [fromOffset + 1..<len] = map buf [fromOffset + 1..<len]"
        by simp_all
      from False inside
      have "rspUnescape_loop buf len fromOffset toOffset acc
            = rspUnescape_loop ?buf len (fromOffset + 1) (toOffset + 1)
                (acc @ [Read fromOffset, Read fromOffset, Write toOffset])"
        by (simp add: unfold)
      also have "\<dots> =
         (overlay ?buf (toOffset + 1) (unescape_bytes (?buf len) (map ?buf [fromOffset + 1..<len])),
          toOffset + 1 + length (unescape_bytes (?buf len) (map ?buf [fromOffset + 1..<len])),
          (acc @ [Read fromOffset, Read fromOffset, Write toOffset])
            @ unescape_trace (fromOffset + 1) (toOffset + 1) (map ?buf [fromOffset + 1..<len]))"
        by (rule 1(2)) (use inside False 1(3) in simp_all)
      also have "\<dots> =
         (overlay ?buf (toOffset + 1) (unescape_bytes (buf len) (map buf [fromOffset + 1..<len])),
          toOffset + 1 + length (unescape_bytes (buf len) (map buf [fromOffset + 1..<len])),
          (acc @ [Read fromOffset, Read fromOffset, Write toOffset])
            @ unescape_trace (fromOffset + 1) (toOffset + 1) (map buf [fromOffset + 1..<len]))"
        by (simp only: keep)
      finally show ?thesis using False
        by (simp add: upt unescape_bytes_plain unescape_trace_plain overlay_Cons)
    next
      case esc: True
      let ?buf = "buf(toOffset := buf (fromOffset + 1) XOR 0x20)"
      from esc inside
      have step: "rspUnescape_loop buf len fromOffset toOffset acc
            = rspUnescape_loop ?buf len (fromOffset + 1 + 1) (toOffset + 1)
                (acc @ [Read fromOffset, Read (fromOffset + 1), Write toOffset])"
        by (simp add: unfold)
      show ?thesis
      proof (cases "fromOffset + 1 < len")
        case False
        with inside have last: "fromOffset + 1 = len" by simp
        have bytes: "map buf [fromOffset..<len] = [0x7D]"
          using upt last esc by simp
        have exit: "rspUnescape_loop ?buf len (fromOffset + 1 + 1) (toOffset + 1)
                (acc @ [Read fromOffset, Read (fromOffset + 1), Write toOffset])
              = (?buf, toOffset + 1, acc @ [Read fromOffset, Read (fromOffset + 1), Write toOffset])"
          using last by (intro rspUnescape_loop_done) simp
        have b: "overlay buf toOffset (unescape_bytes (buf len) [0x7D]) = ?buf"
          using last by (simp add: overlay_single)
        have n: "toOffset + length (unescape_bytes (buf len) [0x7D]) = toOffset + 1"
          by simp
        have t: "unescape_trace fromOffset toOffset [0x7D]
                 = [Read fromOffset, Read (fromOffset + 1), Write toOffset]"
          by simp
        show ?thesis by (simp only: step bytes exit b n t)
      next
        case more: True
        then have upt2: "[fromOffset..<len] = fromOffset # (fromOffset + 1) # [fromOffset + 1 + 1..<len]"
          using upt by (simp add: upt_conv_Cons)
        from 1(3) more have keep: "?buf len = buf len"
          "map ?buf [fromOffset + 1 + 1..<len] = map buf [fromOffset + 1 + 1..<len]"
          by simp_all
        have "rspUnescape_loop ?buf len (fromOffset + 1 + 1) (toOffset + 1)
                (acc @ [Read fromOffset, Read (fromOffset + 1), Write toOffset]) =
         (overlay ?buf (toOffset + 1)
            (unescape_bytes (?buf len) (map ?buf [fromOffset + 1 + 1..<len])),
          toOffset + 1 + length (unescape_bytes (?buf len) (map ?buf [fromOffset + 1 + 1..<len])),
          (acc @ [Read fromOffset, Read (fromOffset + 1), Write toOffset])
            @ unescape_trace (fromOffset + 1 + 1) (toOffset + 1)
                (map ?buf [fromOffset + 1 + 1..<len]))"
          by (rule 1(1)) (use inside esc 1(3) more in simp_all)
        also have "\<dots> =
         (overlay ?buf (toOffset + 1)
            (unescape_bytes (buf len) (map buf [fromOffset + 1 + 1..<len])),
          toOffset + 1 + length (unescape_bytes (buf len) (map buf [fromOffset + 1 + 1..<len])),
          (acc @ [Read fromOffset, Read (fromOffset + 1), Write toOffset])
            @ unescape_trace (fromOffset + 1 + 1) (toOffset + 1)
                (map buf [fromOffset + 1 + 1..<len]))"
          by (simp only: keep)
        finally show ?thesis using step esc
          by (simp add: upt2 overlay_Cons)
      qed
    qed
  qed
qed

lemma dump_load: "dump (load xs mem) (length xs) = xs"
  by (rule nth_equalityI) (simp_all add: dump_def load_def)

lemma dump_overlay: "dump (overlay buf 0 d) (length d) = d"
  by (rule nth_equalityI) (simp_all add: dump_def overlay_def)

lemma rspUnescape_refines:
  "rspUnescape buf len =
     (overlay buf 0 (unescape_bytes (buf len) (dump buf len)),
      length (unescape_bytes (buf len) (dump buf len)))"
  by (simp add: rspUnescape_def dump_def rspUnescape_loop_refines [of 0 0 len buf "[]"])

lemma rspUnescape_accesses_refines:
  "rspUnescape_accesses buf len = unescape_trace 0 0 (dump buf len)"
  by (simp add: rspUnescape_accesses_def dump_def rspUnescape_loop_refines [of 0 0 len buf "[]"])

subsection \<open>Decoded bytes and decoded length\<close>

lemma unescape_bytes_well_formed:
  "\<not> dangling xs \<Longrightarrow> unescape_bytes past xs = unescape xs"
  by (induction xs rule: dangling.induct) auto

lemma length_unescape: "length (unescape xs) = length xs - escapes xs"
proof -
  have "length (unescape xs) + escapes xs = length xs"
    by (induction xs rule: unescape.induct) simp_all
  then show ?thesis by simp
qed

lemma length_unescape_bytes_dangling:
  "dangling xs \<Longrightarrow> length (unescape_bytes past xs) + escapes xs = length xs + 1"
  by (induction xs rule: dangling.induct) auto

text \<open>
  On a buffer that does not end in a dangling escape, \<^verbatim>\<open>rspUnescape\<close> decodes as
  stated and returns the stated length less the number of escape prefixes.
\<close>

lemma rspUnescape_well_formed:
  assumes "\<not> dangling (dump buf len)"
  shows "rspUnescape buf len =
           (overlay buf 0 (unescape (dump buf len)), len - escapes (dump buf len))"
  using assms
  by (simp add: rspUnescape_refines unescape_bytes_well_formed length_unescape) (simp add: dump_def)

text \<open>
  C2. The claim holds for every buffer that does not end in a dangling escape (lemma
  \<open>rspUnescape_well_formed\<close>), but not for every buffer. On the one-byte buffer
  \<^verbatim>\<open>}\<close> the loop steps past the stated length, reads the byte at index 1, which is
  not part of the buffer, writes that byte XOR 0x20 to index 0 and returns 1, where the
  stated length less the one escape prefix is 0.
\<close>

theorem rspUnescape_dangling_escape:
  "rspUnescape (load [0x7D] mem) 1 = ((load [0x7D] mem)(0 := mem 1 XOR 0x20), 1) \<and>
   1 - escapes [0x7D] = 0"
proof -
  let ?buf = "load [0x7D] mem"
  have "rspUnescape_loop ?buf 1 0 0 []
        = rspUnescape_loop (?buf(0 := ?buf (0 + 1) XOR 0x20)) 1 (0 + 1 + 1) (0 + 1)
            ([] @ [Read 0, Read (0 + 1), Write 0])"
    by (subst rspUnescape_loop.simps) (simp add: load_def)
  also have "\<dots> = (?buf(0 := ?buf (0 + 1) XOR 0x20), 0 + 1, [] @ [Read 0, Read (0 + 1), Write 0])"
    by (rule rspUnescape_loop_done) simp
  finally show ?thesis
    by (simp add: rspUnescape_def load_def)
qed

lemma unescape_bytes_rspEscape: "unescape_bytes past (rspEscape b) = b"
proof (induction b)
  case Nil
  show ?case by simp
next
  case (Cons x xs)
  show ?case
  proof (cases "x \<in> {of_char CHR ''#'', of_char CHR ''$'', of_char CHR ''}'', of_char CHR ''*''}")
    case True
    then have "unescape_bytes past (rspEscape (x # xs))
               = ((x XOR 0x20) XOR 0x20) # unescape_bytes past (rspEscape xs)"
      by simp
    also have "(x XOR 0x20) XOR 0x20 = x"
      by (simp add: xor.assoc)
    finally show ?thesis using Cons.IH by simp
  next
    case False
    then have "x \<noteq> 0x7D" by simp
    with False Cons.IH show ?thesis by (simp add: unescape_bytes_plain)
  qed
qed

text \<open>
  C3. For every byte sequence \<open>b\<close>, with any of the bytes \<^verbatim>\<open>#\<close>, \<^verbatim>\<open>$\<close>, \<^verbatim>\<open>}\<close>,
  \<^verbatim>\<open>*\<close> and NUL in it, escaping \<open>b\<close> as on send and decoding the result in place with
  \<^verbatim>\<open>rspUnescape\<close> returns the length of \<open>b\<close> and leaves exactly \<open>b\<close> at the start of
  the buffer, whatever the memory beyond the encoded bytes holds.
\<close>

theorem rspUnescape_rspEscape:
  "snd (rspUnescape (load (rspEscape b) mem) (length (rspEscape b))) = length b \<and>
   dump (fst (rspUnescape (load (rspEscape b) mem) (length (rspEscape b)))) (length b) = b"
proof -
  let ?buf = "load (rspEscape b) mem" and ?len = "length (rspEscape b)"
  have "unescape_bytes (?buf ?len) (dump ?buf ?len) = b"
    by (simp only: dump_load unescape_bytes_rspEscape)
  then have "rspUnescape ?buf ?len = (overlay ?buf 0 b, length b)"
    by (simp only: rspUnescape_refines)
  then show ?thesis
    by (simp add: dump_overlay)
qed

subsection \<open>The indices the loop touches\<close>

lemma unescape_trace_within:
  "t \<le> f \<Longrightarrow> \<not> dangling xs \<Longrightarrow> a \<in> set (unescape_trace f t xs) \<Longrightarrow>
   index_of a < f + length xs"
  by (induction f t xs rule: unescape_trace.induct) (auto split: if_splits)

lemma unescape_trace_upto:
  "t \<le> f \<Longrightarrow> a \<in> set (unescape_trace f t xs) \<Longrightarrow> index_of a \<le> f + length xs"
  by (induction f t xs rule: unescape_trace.induct) (auto split: if_splits)

lemma unescape_trace_past:
  "dangling xs \<Longrightarrow> Read (f + length xs) \<in> set (unescape_trace f t xs)"
  by (induction f t xs rule: unescape_trace.induct) (auto split: if_splits)

text \<open>
  C9. When the buffer ends in a dangling escape, \<^verbatim>\<open>rspUnescape\<close> reads index
  \<^verbatim>\<open>len\<close>, one byte past the stated length (and touches nothing beyond it). For
  every other buffer, each index it reads or writes is strictly below \<^verbatim>\<open>len\<close>.
\<close>

theorem rspUnescape_access_bounds:
  "(dangling (dump buf len) \<longrightarrow>
      Read len \<in> set (rspUnescape_accesses buf len) \<and>
      (\<forall>a \<in> set (rspUnescape_accesses buf len). index_of a \<le> len)) \<and>
   (\<not> dangling (dump buf len) \<longrightarrow>
      (\<forall>a \<in> set (rspUnescape_accesses buf len). index_of a < len))"
proof -
  have len: "0 + length (dump buf len) = len" by (simp add: dump_def)
  have "Read len \<in> set (rspUnescape_accesses buf len)" if "dangling (dump buf len)"
    using unescape_trace_past [OF that, of 0 0] by (simp only: rspUnescape_accesses_refines len)
  moreover have "index_of a \<le> len" if "a \<in> set (rspUnescape_accesses buf len)" for a
    using unescape_trace_upto [of 0 0 a "dump buf len"] that
    by (simp only: rspUnescape_accesses_refines len)
  moreover have "index_of a < len"
    if "\<not> dangling (dump buf len)" "a \<in> set (rspUnescape_accesses buf len)" for a
  proof -
    from that(2) have "a \<in> set (unescape_trace 0 0 (dump buf len))"
      by (simp only: rspUnescape_accesses_refines)
    with that(1) have "index_of a < 0 + length (dump buf len)"
      by (intro unescape_trace_within [of 0 0]) simp_all
    then show ?thesis by (simp only: len)
  qed
  ultimately show ?thesis by blast
qed

theorem rspUnescape_access_bounds_witness:
  "dangling (dump (load [0x7D] zeroed) 1) \<and>
   Read 1 \<in> set (rspUnescape_accesses (load [0x7D] zeroed) 1) \<and>
   \<not> dangling (dump (load [0x7D, 0x03] zeroed) 2) \<and>
   list_all (\<lambda>a. index_of a < 2) (rspUnescape_accesses (load [0x7D, 0x03] zeroed) 2)"
proof -
  have d1: "dangling (dump (load [0x7D] zeroed) 1)"
    by (simp add: dump_def load_def)
  have d2: "\<not> dangling (dump (load [0x7D, 0x03] zeroed) 2)"
    by (simp add: dump_def load_def upt_rec)
  from rspUnescape_access_bounds [of "load [0x7D] zeroed" 1]
       rspUnescape_access_bounds [of "load [0x7D, 0x03] zeroed" 2] d1 d2
  show ?thesis by (simp add: list_all_iff)
qed

section \<open>Properties of the core manager\<close>

lemma unreported_stop_has_reason:
  "CoreState_reachable s \<Longrightarrow> \<not> mStopReported s \<Longrightarrow> mStopReason s \<noteq> RES_NONE"
proof (induction rule: CoreState_reachable.induct)
  case fresh
  then show ?case by (simp add: CoreState_new_def)
next
  case (killed s)
  then show ?case by (simp add: killCore_def)
next
  case (reported s)
  then show ?case by (simp add: reportStopReason_def)
next
  case (stopped s res)
  then show ?case by (simp add: setStopReason_def)
next
  case (resumed s ty)
  then show ?case by (simp add: setResumeType_def)
qed

text \<open>
  C4. After \<^verbatim>\<open>setStopReason(res)\<close> the core has an unreported stop exactly when
  \<open>res\<close> is not NONE, and \<open>res\<close> is the recorded stop reason. Hence in every core state
  that the constructor and the member functions can produce, an unreported stop
  (\<^verbatim>\<open>mStopReported\<close> false) comes with a recorded stop reason other than NONE.
\<close>

theorem setStopReason_pending_stop:
  "(hasUnreportedStop (setStopReason s res) \<longleftrightarrow> res \<noteq> RES_NONE) \<and>
   stopReason (setStopReason s res) = res \<and>
   (CoreState_reachable t \<longrightarrow> hasUnreportedStop t \<longrightarrow> stopReason t \<noteq> RES_NONE)"
  using unreported_stop_has_reason [of t]
  by (simp add: hasUnreportedStop_def setStopReason_def stopReason_def)

theorem setStopReason_pending_stop_witness:
  "CoreState_reachable (setStopReason CoreState_new RES_BREAKPOINT) \<and>
   hasUnreportedStop (setStopReason CoreState_new RES_BREAKPOINT) \<and>
   stopReason (setStopReason CoreState_new RES_BREAKPOINT) \<noteq> RES_NONE"
proof -
  have r: "CoreState_reachable (setStopReason CoreState_new RES_BREAKPOINT)"
    by (rule CoreState_reachable.stopped) (rule CoreState_reachable.fresh)
  have u: "hasUnreportedStop (setStopReason CoreState_new RES_BREAKPOINT)"
    by (simp add: hasUnreportedStop_def setStopReason_def)
  from setStopReason_pending_stop
         [of CoreState_new RES_BREAKPOINT "setStopReason CoreState_new RES_BREAKPOINT"] r u
  show ?thesis by simp
qed

text \<open>
  C5. A freshly constructed core state is live, has no unreported stop (its stop counts as
  reported) and is not running: its resume type is NONE.
\<close>

theorem CoreState_new_lifecycle:
  "isLive CoreState_new \<and> \<not> hasUnreportedStop CoreState_new \<and>
   mStopReported CoreState_new \<and> mResumeType CoreState_new = TYPE_NONE \<and>
   \<not> isRunning CoreState_new"
  by (simp add: CoreState_new_def isLive_def hasUnreportedStop_def isRunning_def)

text \<open>
  C6. Indexing the core manager at an index that is not below the number of cores fails its
  assertion. At an index below the number of cores (the vector holding one state per core)
  it returns that core's state, and does not fail.
\<close>

theorem index_op_range:
  "(mNumCores cm \<le> idx \<longrightarrow> index_op cm idx = Inl AssertionFailed) \<and>
   (idx < mNumCores cm \<longrightarrow> length (mCoreStates cm) = mNumCores cm \<longrightarrow>
      index_op cm idx = Inr (mCoreStates cm ! idx) \<and> index_op cm idx \<noteq> Inl AssertionFailed)"
  by (simp add: index_op_def)

theorem index_op_range_witness:
  "index_op \<lparr>mNumCores = 2, mLiveCores = 2,
             mCoreStates = [CoreState_new, killCore CoreState_new]\<rparr> 2 = Inl AssertionFailed \<and>
   index_op \<lparr>mNumCores = 2, mLiveCores = 2,
             mCoreStates = [CoreState_new, killCore CoreState_new]\<rparr> 1
     = Inr (killCore CoreState_new)"
  using index_op_range [of "\<lparr>mNumCores = 2, mLiveCores = 2,
             mCoreStates = [CoreState_new, killCore CoreState_new]\<rparr>" 2]
        index_op_range [of "\<lparr>mNumCores = 2, mLiveCores = 2,
             mCoreStates = [CoreState_new, killCore CoreState_new]\<rparr>" 1]
  by simp

text \<open>
  C7. The packet capacity \<^verbatim>\<open>RSP_PKT_SIZE\<close> is at least 256 and at least
  \<open>2 * RISCV_NUM_REG_BYTES + 1\<close>, and it equals the latter when that exceeds 256. With
  4-byte registers the register bytes are \<open>33 * 4\<close> and the capacity is 265.
\<close>

theorem RSP_PKT_SIZE_capacity:
  "256 \<le> RSP_PKT_SIZE sz \<and>
   2 * RISCV_NUM_REG_BYTES sz + 1 \<le> RSP_PKT_SIZE sz \<and>
   (256 < 2 * RISCV_NUM_REG_BYTES sz + 1 \<longrightarrow>
      RSP_PKT_SIZE sz = 2 * RISCV_NUM_REG_BYTES sz + 1) \<and>
   RISCV_NUM_REG_BYTES sizeof_uint_reg_t = 33 * 4 \<and>
   RSP_PKT_SIZE sizeof_uint_reg_t = 2 * 33 * 4 + 1 \<and>
   RSP_PKT_SIZE sizeof_uint_reg_t = 265"
  by (simp add: RSP_PKT_SIZE_def RISCV_NUM_REG_BYTES_def RISCV_NUM_REGS_def
        sizeof_uint_reg_t_def)

theorem RSP_PKT_SIZE_capacity_witness:
  "256 < 2 * RISCV_NUM_REG_BYTES 4 + 1 \<and> RSP_PKT_SIZE 4 = 2 * RISCV_NUM_REG_BYTES 4 + 1"
  using RSP_PKT_SIZE_capacity [of 4]
  by (simp add: RISCV_NUM_REG_BYTES_def RISCV_NUM_REGS_def)

text \<open>
  C8. \<^verbatim>\<open>pid2CoreNum\<close> subtracts one and \<^verbatim>\<open>coreNum2Pid\<close> adds one, and each undoes the
  other: on every PID (so on every PID from 1 up) and on every core index. For a PID from
  1 up the subtraction does not wrap.
\<close>

theorem pid_coreNum_inverse:
  "pid2CoreNum pid = pid - 1 \<and> coreNum2Pid n = n + 1 \<and>
   coreNum2Pid (pid2CoreNum pid) = pid \<and> pid2CoreNum (coreNum2Pid n) = n \<and>
   (1 \<le> pid \<longrightarrow> unat (pid2CoreNum pid) = unat pid - 1 \<and>
                  coreNum2Pid (pid2CoreNum pid) = pid)"
proof -
  have "unat (pid - 1) = unat pid - 1" if "1 \<le> pid"
  proof -
    from that have "pid \<noteq> 0" by auto
    then show ?thesis by (rule unat_minus_one)
  qed
  then show ?thesis
    by (simp add: pid2CoreNum_def coreNum2Pid_def)
qed

theorem pid_coreNum_inverse_witness:
  "(1 :: 32 word) \<le> 7 \<and> unat (pid2CoreNum 7) = 6 \<and> coreNum2Pid (pid2CoreNum 7) = 7 \<and>
   pid2CoreNum (coreNum2Pid 6) = 6"
  using pid_coreNum_inverse [of 7 6]
  by simp

end
